theory Spec2Isabelle
  imports Main
begin

section \<open>The Sequence of symbols (src/simon/main.go, lines 71-101)\<close>

text \<open>
  Go's \<open>int\<close> is modelled by \<open>int\<close>: the only arithmetic on it is \<open>lindex++\<close>, guarded by
  \<open>lindex \<noteq> len(list)\<close>, so the cursor never leaves the range of a slice length and
  64-bit wrap-around cannot occur. The two run-time panics the code can raise are values
  of \<open>error\<close>.
\<close>

datatype error =
    IndexOutOfRange      \<comment> \<open>\<open>s.list[s.lindex]\<close> with the index outside the slice\<close>
  | IntnInvalidArgument  \<comment> \<open>\<open>rand.Intn(n)\<close> with \<open>n <= 0\<close>\<close>

record Sequence =
  list_s :: "int list"
  lindex :: int
  maxval :: int

text \<open>
  \<open>rand.Intn\<close> belongs to Go's standard library, not to the repository. It is modelled by
  its documented contract: it panics when \<open>n <= 0\<close> and otherwise returns a number of the
  half-open interval \<open>[0,n)\<close>. The argument \<open>raw\<close> is the raw output of the default random
  source at this call; every value of \<open>[0,n)\<close> is the image of some \<open>raw\<close>.
\<close>

definition rand_Intn :: "int \<Rightarrow> int \<Rightarrow> error + int" where
  "rand_Intn n raw = (if n \<le> 0 then Inl IntnInvalidArgument else Inr (raw mod n))"

definition Len :: "Sequence \<Rightarrow> int" where
  "Len s = int (length (list_s s))"

text \<open>\<open>Reset add raw s\<close>: the random source is only consulted when \<open>add\<close> is true.\<close>

definition Reset :: "bool \<Rightarrow> int \<Rightarrow> Sequence \<Rightarrow> error + Sequence" where
  "Reset add raw s =
     (let s1 = s\<lparr>lindex := 0\<rparr> in
      if add then
        (case rand_Intn (maxval s1) raw of
           Inl e \<Rightarrow> Inl e
         | Inr v \<Rightarrow> Inr (s1\<lparr>list_s := list_s s1 @ [v]\<rparr>))
      else Inr s1)"

definition Next :: "Sequence \<Rightarrow> error + (int \<times> Sequence)" where
  "Next s =
     (if lindex s = int (length (list_s s)) then Inr (- 1, s)
      else if lindex s < 0 \<or> int (length (list_s s)) < lindex s then Inl IndexOutOfRange
      else Inr (list_s s ! nat (lindex s), s\<lparr>lindex := lindex s + 1\<rparr>))"

definition HasNext :: "Sequence \<Rightarrow> bool" where
  "HasNext s = (lindex s < int (length (list_s s)))"

text \<open>The package-level variable \<open>sequence = Sequence{maxval: 4}\<close> (line 117).\<close>

definition sequence_init :: Sequence where
  "sequence_init = \<lparr>list_s = [], lindex = 0, maxval = 4\<rparr>"

text \<open>\<open>Next_times n s\<close> calls \<open>Next\<close> \<open>n\<close> times in a row and collects what it returned.\<close>

fun Next_times :: "nat \<Rightarrow> Sequence \<Rightarrow> error + (int list \<times> Sequence)" where
  "Next_times 0 s = Inr ([], s)"
| "Next_times (Suc n) s =
     (case Next s of
        Inl e \<Rightarrow> Inl e
      | Inr (v, s1) \<Rightarrow>
          (case Next_times n s1 of
             Inl e \<Rightarrow> Inl e
           | Inr (vs, s2) \<Rightarrow> Inr (v # vs, s2)))"

text \<open>
  The four operations as one datatype, to speak about arbitrary call sequences.
  \<open>HasNext\<close> and \<open>Len\<close> assign no field, so their post-state is the pre-state.
\<close>

datatype seq_op = OpReset bool int | OpNext | OpHasNext | OpLen

fun apply_op :: "seq_op \<Rightarrow> Sequence \<Rightarrow> error + Sequence" where
  "apply_op (OpReset add raw) s = Reset add raw s"
| "apply_op OpNext s = (case Next s of Inl e \<Rightarrow> Inl e | Inr (v, s1) \<Rightarrow> Inr s1)"
| "apply_op OpHasNext s = (let b = HasNext s in Inr s)"
| "apply_op OpLen s = (let n = Len s in Inr s)"

fun run_ops :: "seq_op list \<Rightarrow> Sequence \<Rightarrow> error + Sequence" where
  "run_ops [] s = Inr s"
| "run_ops (x # xs) s = (case apply_op x s of Inl e \<Rightarrow> Inl e | Inr s1 \<Rightarrow> run_ops xs s1)"

text \<open>The data-model invariants: the cursor lies in \<open>[0, length]\<close>; symbols lie in \<open>[0, K)\<close>.\<close>

definition cursor_ok :: "Sequence \<Rightarrow> bool" where
  "cursor_ok s = (0 \<le> lindex s \<and> lindex s \<le> int (length (list_s s)))"

definition symbols_ok :: "Sequence \<Rightarrow> bool" where
  "symbols_ok s = list_all (\<lambda>x. 0 \<le> x \<and> x < maxval s) (list_s s)"

definition Sequence_ok :: "Sequence \<Rightarrow> bool" where
  "Sequence_ok s = (cursor_ok s \<and> symbols_ok s \<and> maxval s = 4)"

section \<open>The event loop (src/simon/main.go, lines 140-288)\<close>

text \<open>
  The window toolkit (gioui.org) is outside the repository; the loop is modelled over the
  events it delivers. A pointer event has a type; \<open>pointer.Cancel\<close> is the zero value of
  that type.
\<close>

datatype pointer_Type =
    pointer_Cancel | pointer_Press | pointer_Release | pointer_Move
  | pointer_Drag | pointer_Enter | pointer_Leave | pointer_Scroll

text \<open>What \<open>gtx.Events(tag)\<close> hands out: pointer events, and possibly events of other kinds.\<close>

datatype tag_event = PointerEvent pointer_Type | NonPointerEvent

text \<open>
  \<open>ev, _ := ev.(pointer.Event)\<close> followed by \<open>ev.Type\<close>: a failed type assertion leaves the
  zero value, whose type is \<open>pointer.Cancel\<close>.
\<close>

fun pointer_type_of :: "tag_event \<Rightarrow> pointer_Type" where
  "pointer_type_of (PointerEvent t) = t"
| "pointer_type_of NonPointerEvent = pointer_Cancel"

datatype key_State = key_Press | key_Release

text \<open>
  The events received from \<open>w.Events()\<close>. A \<open>FrameEvent\<close> carries, for each pad index, the
  events queued for that pad's tag.
\<close>

datatype event =
    DestroyEvent
  | FrameEvent "tag_event list list"
  | KeyEvent key_State string
  | OtherEvent

text \<open>The functions passed to \<open>time.AfterFunc\<close>.\<close>

datatype callback =
    cb_Invalidate   \<comment> \<open>\<open>w.Invalidate\<close> (line 169)\<close>
  | cb_Failure      \<comment> \<open>the closure of lines 227-234\<close>
  | cb_Close        \<comment> \<open>the closure of lines 231-233\<close>
  | cb_NextRound    \<comment> \<open>the closure of lines 238-243\<close>

definition playInterval :: nat where "playInterval = 500"  \<comment> \<open>milliseconds\<close>
definition resetTime :: nat where "resetTime = 1000"

text \<open>The labels of the four pads; only their number and order matter to the loop.\<close>

definition pads :: "string list" where
  "pads = [''1'', ''2'', ''3'', ''4'']"

text \<open>
  The state the loop and its callbacks share: the package-level \<open>sequence\<close>, the locals
  \<open>simonPlay\<close>, \<open>terminating\<close> and \<open>selected\<close> of \<open>loop\<close>, and what the loop has asked of its
  environment: the pending \<open>time.AfterFunc\<close> calls (duration, function), the number of
  \<open>w.Invalidate()\<close> calls, whether \<open>w.Close()\<close> was called, the numbers logged as
  "Longest correct sequence", and whether \<open>loop\<close> has returned. The audio functions are
  defined outside this file and touch none of these variables; their calls are left out.
\<close>

record game =
  sequence :: Sequence
  simonPlay :: bool
  terminating :: bool
  selected :: int
  timers :: "(nat \<times> callback) list"
  invalidations :: nat
  closed :: bool
  reported :: "int list"
  exited :: bool

text \<open>Lines 165-175: one step of the machine's playback.\<close>

definition play_step :: "game \<Rightarrow> error + game" where
  "play_step g =
     (if simonPlay g then
        (case Next (sequence g) of
           Inl e \<Rightarrow> Inl e
         | Inr (simon, s1) \<Rightarrow>
             if 0 \<le> simon then
               Inr (g\<lparr>sequence := s1, selected := simon,
                      timers := timers g @ [(playInterval, cb_Invalidate)]\<rparr>)
             else
               (case Reset False 0 s1 of
                  Inl e \<Rightarrow> Inl e
                | Inr s2 \<Rightarrow> Inr (g\<lparr>sequence := s2, simonPlay := False\<rparr>)))
      else Inr g)"

text \<open>Lines 189-197: the scan of one pad's pointer events, updating \<open>user\<close>.\<close>

fun scan_events :: "nat \<Rightarrow> tag_event list \<Rightarrow> int \<Rightarrow> int" where
  "scan_events i [] user = user"
| "scan_events i (ev # evs) user =
     scan_events i evs
       (if pointer_type_of ev = pointer_Press then int i
        else if pointer_type_of ev = pointer_Release then - 1
        else user)"

text \<open>A disabled layout context has no event queue: \<open>gtx.Events\<close> returns nothing.\<close>

definition events_for :: "bool \<Rightarrow> tag_event list list \<Rightarrow> nat \<Rightarrow> tag_event list" where
  "events_for disabled q i = (if disabled then [] else if i < length q then q ! i else [])"

text \<open>Lines 185-201: what the layout closure of pad \<open>i\<close> does to \<open>user\<close> and \<open>selected\<close>.\<close>

definition layout_pad :: "tag_event list list \<Rightarrow> bool \<Rightarrow> nat \<Rightarrow> int \<times> game \<Rightarrow> int \<times> game" where
  "layout_pad q disabled i ug =
     (case ug of (user, g) \<Rightarrow>
        if \<not> simonPlay g then
          (if 0 \<le> selected g then (selected g, g)
           else (let user1 = scan_events i (events_for disabled q i) user
                 in (user1, g\<lparr>selected := user1\<rparr>)))
        else (user, g))"

text \<open>\<open>grid.Layout(gtx, len(pads), ...)\<close> runs the closure once per pad, in index order.\<close>

definition grid_Layout :: "tag_event list list \<Rightarrow> bool \<Rightarrow> int \<times> game \<Rightarrow> int \<times> game" where
  "grid_Layout q disabled ug = fold (layout_pad q disabled) [0..<length pads] ug"

text \<open>Lines 218-245: judging the player's selection.\<close>

definition judge :: "int \<Rightarrow> game \<Rightarrow> error + game" where
  "judge user g =
     (if \<not> simonPlay g \<and> 0 \<le> user then
        (case Next (sequence g) of
           Inl e \<Rightarrow> Inl e
         | Inr (simon, s1) \<Rightarrow>
             (let g1 = g\<lparr>sequence := s1\<rparr>;
                  g2 = (if 0 \<le> simon \<and> simon \<noteq> user
                        then g1\<lparr>terminating := True,
                                timers := timers g1 @ [(playInterval, cb_Failure)]\<rparr>
                        else g1);
                  g3 = (if \<not> terminating g2 \<and> \<not> HasNext (sequence g2)
                        then g2\<lparr>timers := timers g2 @ [(resetTime, cb_NextRound)]\<rparr>
                        else g2)
              in Inr g3))
      else Inr g)"

text \<open>Lines 159-268: the whole \<open>system.FrameEvent\<close> branch.\<close>

definition FrameEvent_handler :: "tag_event list list \<Rightarrow> game \<Rightarrow> error + game" where
  "FrameEvent_handler q g =
     (let disabled = (simonPlay g \<or> terminating g) in
      case play_step g of
        Inl e \<Rightarrow> Inl e
      | Inr g1 \<Rightarrow>
          (case grid_Layout q disabled (- 1, g1) of
             (user, g2) \<Rightarrow>
               (case judge user g2 of
                  Inl e \<Rightarrow> Inl e
                | Inr g3 \<Rightarrow> Inr (g3\<lparr>selected := - 1\<rparr>))))"

text \<open>Lines 270-285: the \<open>key.Event\<close> branch. \<open>e.Name[0] - '1'\<close> is byte arithmetic.\<close>

definition KeyEvent_handler :: "key_State \<Rightarrow> string \<Rightarrow> game \<Rightarrow> game" where
  "KeyEvent_handler st name g =
     (if st = key_Press then
        (if name = ''1'' \<or> name = ''2'' \<or> name = ''3'' \<or> name = ''4'' then
           (if \<not> simonPlay g then
              g\<lparr>selected := int (of_char (hd name)) - int (of_char (CHR ''1'')),
                invalidations := invalidations g + 1\<rparr>
            else g)
         else if name = ''X'' \<or> name = ''Q'' then g\<lparr>closed := True\<rparr>
         else g)
      else g\<lparr>selected := - 1, invalidations := invalidations g + 1\<rparr>)"

text \<open>
  What each function handed to \<open>time.AfterFunc\<close> does when the timer runs it; \<open>raw\<close> is the
  random source's output, consulted by \<open>cb_NextRound\<close> only.
\<close>

fun run_callback :: "callback \<Rightarrow> int \<Rightarrow> game \<Rightarrow> error + game" where
  "run_callback cb_Invalidate raw g = Inr (g\<lparr>invalidations := invalidations g + 1\<rparr>)"
| "run_callback cb_Failure raw g =
     Inr (g\<lparr>reported := reported g @ [Len (sequence g) - 1],
            timers := timers g @ [(resetTime, cb_Close)]\<rparr>)"
| "run_callback cb_Close raw g = Inr (g\<lparr>closed := True\<rparr>)"
| "run_callback cb_NextRound raw g =
     (let g1 = g\<lparr>simonPlay := True\<rparr> in
      case Reset True raw (sequence g1) of
        Inl e \<Rightarrow> Inl e
      | Inr s1 \<Rightarrow> Inr (g1\<lparr>sequence := s1, invalidations := invalidations g1 + 1\<rparr>))"

text \<open>
  What can happen next. \<open>Deliver e\<close>: the loop receives \<open>e\<close> from \<open>w.Events()\<close> and runs
  the matching branch of its \<open>switch\<close>. \<open>Fire i raw\<close>: the \<open>i\<close>-th pending timer expires
  and \<open>time.AfterFunc\<close> runs its function, in a goroutine of its own and without any event
  passing through the loop. Each action is taken as one atomic step.
\<close>

datatype action = Deliver event | Fire nat int

text \<open>A timer that has run its function is no longer pending.\<close>

definition timers_without :: "nat \<Rightarrow> (nat \<times> callback) list \<Rightarrow> (nat \<times> callback) list" where
  "timers_without i ts = take i ts @ drop (Suc i) ts"

fun step :: "action \<Rightarrow> game \<Rightarrow> error + game" where
  "step (Deliver DestroyEvent) g = Inr (g\<lparr>exited := True\<rparr>)"
| "step (Deliver (FrameEvent q)) g = FrameEvent_handler q g"
| "step (Deliver (KeyEvent st name)) g = Inr (KeyEvent_handler st name g)"
| "step (Deliver OtherEvent) g = Inr g"
| "step (Fire i raw) g =
     (if i < length (timers g)
      then run_callback (snd (timers g ! i)) raw (g\<lparr>timers := timers_without i (timers g)\<rparr>)
      else Inr g)"

text \<open>Once \<open>loop\<close> has returned, the process exits and nothing runs any more.\<close>

fun run :: "action list \<Rightarrow> game \<Rightarrow> error + game" where
  "run [] g = Inr g"
| "run (a # as) g =
     (if exited g then Inr g
      else (case step a g of Inl e \<Rightarrow> Inl e | Inr g1 \<Rightarrow> run as g1))"

text \<open>Lines 146-151: the state in which \<open>loop\<close> enters its \<open>for\<close>.\<close>

definition loop_start :: "int \<Rightarrow> error + game" where
  "loop_start raw =
     (case Reset True raw sequence_init of
        Inl e \<Rightarrow> Inl e
      | Inr s \<Rightarrow>
          Inr \<lparr>sequence = s, simonPlay = True, terminating = False, selected = - 1,
               timers = [], invalidations = 0, closed = False, reported = [],
               exited = False\<rparr>)"

text \<open>
  A game awaiting the player, with nothing pending: the stored symbols, the cursor and
  the current selection are the parameters. Used to write down concrete states.
\<close>

definition awaiting :: "int list \<Rightarrow> int \<Rightarrow> int \<Rightarrow> game" where
  "awaiting xs cur sel =
     \<lparr>sequence = \<lparr>list_s = xs, lindex = cur, maxval = 4\<rparr>, simonPlay = False,
      terminating = False, selected = sel, timers = [], invalidations = 0,
      closed = False, reported = [], exited = False\<rparr>"

text \<open>The game has been lost and no timer is left that would start another round.\<close>

definition game_over :: "game \<Rightarrow> bool" where
  "game_over g = (terminating g \<and> cb_NextRound \<notin> snd ` set (timers g))"

section \<open>Properties of the Sequence\<close>

lemma Next_times_from_cursor:
  "k \<le> length (list_s s) \<Longrightarrow> lindex s = int k \<Longrightarrow>
   Next_times (length (list_s s) - k) s =
     Inr (drop k (list_s s), s\<lparr>lindex := int (length (list_s s))\<rparr>)"
proof (induction "length (list_s s) - k" arbitrary: s k)
  case 0
  then show ?case by simp
next
  case (Suc n)
  then have lt: "k < length (list_s s)" by simp
  let ?s1 = "s\<lparr>lindex := lindex s + 1\<rparr>"
  have nx: "Next s = Inr (list_s s ! k, ?s1)"
    using lt Suc.prems by (simp add: Next_def)
  have n: "n = length (list_s ?s1) - Suc k" using Suc.hyps(2) by simp
  have ih: "Next_times (length (list_s ?s1) - Suc k) ?s1 =
      Inr (drop (Suc k) (list_s ?s1), ?s1\<lparr>lindex := int (length (list_s ?s1))\<rparr>)"
    using Suc.hyps(1)[OF n] lt Suc.prems by simp
  have len: "length (list_s s) - k = Suc (length (list_s s) - Suc k)" using lt by simp
  show ?case
    using nx ih lt by (simp add: len Cons_nth_drop_Suc)
qed

text \<open>
  C2 (round-trip replay law). For every Sequence state, \<open>Reset(false)\<close> succeeds, and calling
  \<open>Next()\<close> exactly \<open>Len()\<close> times afterwards returns exactly the stored symbols in insertion
  order, leaving the list as it was.
\<close>

theorem C2_replay_roundtrip:
  "\<exists>s1 s2. Reset False raw s = Inr s1 \<and>
           Next_times (nat (Len s1)) s1 = Inr (list_s s, s2) \<and>
           list_s s2 = list_s s"
proof -
  let ?s1 = "s\<lparr>lindex := 0\<rparr>"
  have r: "Reset False raw s = Inr ?s1" by (simp add: Reset_def)
  have "Next_times (length (list_s ?s1) - 0) ?s1 =
      Inr (drop 0 (list_s ?s1), ?s1\<lparr>lindex := int (length (list_s ?s1))\<rparr>)"
    by (rule Next_times_from_cursor) simp_all
  then have "Next_times (nat (Len ?s1)) ?s1 = Inr (list_s s, s\<lparr>lindex := int (length (list_s s))\<rparr>)"
    by (simp add: Len_def)
  with r show ?thesis by auto
qed

lemma rand_Intn_range:
  "0 < n \<Longrightarrow> \<exists>v. rand_Intn n raw = Inr v \<and> 0 \<le> v \<and> v < n"
  by (simp add: rand_Intn_def)

lemma rand_Intn_onto:
  "0 \<le> v \<Longrightarrow> v < n \<Longrightarrow> rand_Intn n v = Inr v"
  by (simp add: rand_Intn_def)

lemma Next_exhausted: "lindex s = Len s \<Longrightarrow> Next s = Inr (- 1, s)"
  by (simp add: Next_def Len_def)

lemma Next_in_range:
  "0 \<le> lindex s \<Longrightarrow> lindex s < Len s \<Longrightarrow>
   Next s = Inr (list_s s ! nat (lindex s), s\<lparr>lindex := lindex s + 1\<rparr>)"
  by (simp add: Next_def Len_def)

lemma Next_times_exhausted:
  "lindex s = Len s \<Longrightarrow> Next_times n s = Inr (replicate n (- 1), s)"
  by (induction n) (simp_all add: Next_exhausted)

lemma Reset_cursor_ok: "Reset add raw s = Inr s1 \<Longrightarrow> cursor_ok s1"
  by (auto simp: Reset_def cursor_ok_def Let_def split: sum.splits if_splits)

lemma Reset_length: "Reset add raw s = Inr s1 \<Longrightarrow> length (list_s s) \<le> length (list_s s1)"
  by (auto simp: Reset_def Let_def split: sum.splits if_splits)

lemma Reset_maxval: "Reset add raw s = Inr s1 \<Longrightarrow> maxval s1 = maxval s"
  by (auto simp: Reset_def Let_def split: sum.splits if_splits)

lemma Reset_symbols_ok: "symbols_ok s \<Longrightarrow> Reset add raw s = Inr s1 \<Longrightarrow> symbols_ok s1"
  by (auto simp: Reset_def symbols_ok_def rand_Intn_def Let_def split: sum.splits if_splits)

lemma Reset_total: "0 < maxval s \<or> \<not> add \<Longrightarrow> \<exists>s1. Reset add raw s = Inr s1"
  by (auto simp: Reset_def rand_Intn_def Let_def)

lemma Next_cursor_ok: "cursor_ok s \<Longrightarrow> Next s = Inr (v, s1) \<Longrightarrow> cursor_ok s1"
  by (auto simp: Next_def cursor_ok_def split: if_splits)

lemma Next_list: "Next s = Inr (v, s1) \<Longrightarrow> list_s s1 = list_s s \<and> maxval s1 = maxval s"
  by (auto simp: Next_def split: if_splits)

lemma Next_total: "cursor_ok s \<Longrightarrow> \<exists>v s1. Next s = Inr (v, s1)"
  by (auto simp: Next_def cursor_ok_def)

lemma apply_op_cursor_ok: "cursor_ok s \<Longrightarrow> apply_op x s = Inr s1 \<Longrightarrow> cursor_ok s1"
  by (cases x) (auto simp: Let_def split: sum.splits dest: Reset_cursor_ok Next_cursor_ok)

lemma apply_op_length: "apply_op x s = Inr s1 \<Longrightarrow> length (list_s s) \<le> length (list_s s1)"
  by (cases x) (auto simp: Let_def split: sum.splits dest: Reset_length Next_list)

lemma apply_op_maxval: "apply_op x s = Inr s1 \<Longrightarrow> maxval s1 = maxval s"
  by (cases x) (auto simp: Let_def split: sum.splits dest: Reset_maxval Next_list)

lemma apply_op_symbols_ok: "symbols_ok s \<Longrightarrow> apply_op x s = Inr s1 \<Longrightarrow> symbols_ok s1"
  by (cases x) (auto simp: Let_def symbols_ok_def split: sum.splits dest: Reset_symbols_ok[unfolded symbols_ok_def] Next_list)

lemma apply_op_total:
  assumes "cursor_ok s" and "0 < maxval s"
  shows "\<exists>s1. apply_op x s = Inr s1"
proof (cases x)
  case (OpReset add raw)
  then show ?thesis using Reset_total[of s add raw] assms(2) by simp
next
  case OpNext
  from assms(1) obtain v s1 where "Next s = Inr (v, s1)" using Next_total by blast
  with OpNext show ?thesis by simp
qed simp_all

lemma apply_op_Sequence_ok: "Sequence_ok s \<Longrightarrow> apply_op x s = Inr s1 \<Longrightarrow> Sequence_ok s1"
  unfolding Sequence_ok_def
  using apply_op_cursor_ok apply_op_symbols_ok apply_op_maxval by metis

lemma run_ops_Sequence_ok: "Sequence_ok s \<Longrightarrow> run_ops xs s = Inr s1 \<Longrightarrow> Sequence_ok s1"
proof (induction xs arbitrary: s)
  case Nil
  then show ?case by simp
next
  case (Cons x xs)
  then show ?case by (auto split: sum.splits dest: apply_op_Sequence_ok)
qed

lemma sequence_init_ok: "Sequence_ok sequence_init"
  by (simp add: Sequence_ok_def cursor_ok_def symbols_ok_def sequence_init_def)

lemma symbols_ok_nth:
  "symbols_ok s \<Longrightarrow> 0 \<le> lindex s \<Longrightarrow> lindex s < Len s \<Longrightarrow>
   0 \<le> list_s s ! nat (lindex s) \<and> list_s s ! nat (lindex s) < maxval s"
  by (simp add: symbols_ok_def Len_def list_all_length)

text \<open>
  C3. In every Sequence state that satisfies the data-model invariants, \<open>Next()\<close> returns
  without panic; it returns the sentinel \<open>-1\<close> exactly when the cursor equals the length,
  which is exactly when \<open>HasNext()\<close> is false, and then changes nothing; otherwise it returns
  the symbol at the cursor, a valid symbol of \<open>[0,4)\<close>, and advances the cursor by one.
\<close>

theorem C3_Next_sentinel:
  assumes "Sequence_ok s"
  shows "\<exists>v s1. Next s = Inr (v, s1) \<and>
           (v = - 1 \<longleftrightarrow> lindex s = Len s) \<and>
           (v = - 1 \<longleftrightarrow> \<not> HasNext s) \<and>
           (v = - 1 \<longrightarrow> s1 = s) \<and>
           (v \<noteq> - 1 \<longrightarrow> v = list_s s ! nat (lindex s) \<and> 0 \<le> v \<and> v < 4 \<and>
                          s1 = s\<lparr>lindex := lindex s + 1\<rparr>)"
proof (cases "lindex s = Len s")
  case True
  then show ?thesis by (simp add: Next_exhausted HasNext_def Len_def)
next
  case False
  from assms have c: "0 \<le> lindex s" "lindex s \<le> Len s" and sy: "symbols_ok s" and m: "maxval s = 4"
    by (simp_all add: Sequence_ok_def cursor_ok_def Len_def)
  with False have lt: "lindex s < Len s" by simp
  have nx: "Next s = Inr (list_s s ! nat (lindex s), s\<lparr>lindex := lindex s + 1\<rparr>)"
    using c(1) lt by (rule Next_in_range)
  have rg: "0 \<le> list_s s ! nat (lindex s) \<and> list_s s ! nat (lindex s) < 4"
    using symbols_ok_nth[OF sy c(1) lt] m by simp
  show ?thesis using nx rg lt False by (simp add: HasNext_def Len_def)
qed

theorem C3_Next_sentinel_witness:
  "Sequence_ok \<lparr>list_s = [2, 0], lindex = 1, maxval = 4\<rparr> \<and>
   Next \<lparr>list_s = [2, 0], lindex = 1, maxval = 4\<rparr> = Inr (0, \<lparr>list_s = [2, 0], lindex = 2, maxval = 4\<rparr>) \<and>
   Sequence_ok \<lparr>list_s = [2, 0], lindex = 2, maxval = 4\<rparr> \<and>
   Next \<lparr>list_s = [2, 0], lindex = 2, maxval = 4\<rparr> = Inr (- 1, \<lparr>list_s = [2, 0], lindex = 2, maxval = 4\<rparr>)"
proof -
  have a: "Sequence_ok \<lparr>list_s = [2, 0], lindex = 1, maxval = 4\<rparr>"
    by (simp add: Sequence_ok_def cursor_ok_def symbols_ok_def)
  have b: "Sequence_ok \<lparr>list_s = [2, 0], lindex = 2, maxval = 4\<rparr>"
    by (simp add: Sequence_ok_def cursor_ok_def symbols_ok_def)
  show ?thesis
    using a b C3_Next_sentinel[OF a] C3_Next_sentinel[OF b]
    by (auto simp: Len_def HasNext_def)
qed

text \<open>
  C4. With \<open>K = maxval = 4\<close>, \<open>Reset\<close> never fails and sets the cursor to 0 for either
  argument; with \<open>add\<close> it appends exactly one symbol, the value \<open>rand.Intn(4)\<close> returns,
  which lies in \<open>[0,4)\<close>; without \<open>add\<close> the stored list is unchanged.
\<close>

theorem C4_Reset:
  assumes "maxval s = 4"
  shows "\<exists>s1. Reset add raw s = Inr s1 \<and> lindex s1 = 0 \<and> maxval s1 = 4 \<and>
           (add \<longrightarrow> (\<exists>v. rand_Intn 4 raw = Inr v \<and> 0 \<le> v \<and> v < 4 \<and>
                          list_s s1 = list_s s @ [v])) \<and>
           (\<not> add \<longrightarrow> list_s s1 = list_s s) \<and>
           (\<forall>v. 0 \<le> v \<and> v < 4 \<longrightarrow>
                Reset True v s = Inr (s\<lparr>lindex := 0, list_s := list_s s @ [v]\<rparr>))"
  using assms by (simp add: Reset_def rand_Intn_def Let_def)

theorem C4_Reset_witness:
  "maxval sequence_init = 4 \<and>
   Reset True 6 sequence_init = Inr \<lparr>list_s = [2], lindex = 0, maxval = 4\<rparr> \<and>
   Reset False 6 \<lparr>list_s = [2, 0], lindex = 2, maxval = 4\<rparr> = Inr \<lparr>list_s = [2, 0], lindex = 0, maxval = 4\<rparr>"
  using C4_Reset[of sequence_init True 6] C4_Reset[of "\<lparr>list_s = [2, 0], lindex = 2, maxval = 4\<rparr>" False 6]
  by (simp add: sequence_init_def Reset_def rand_Intn_def)

text \<open>
  C7. Each of the operations \<open>Reset\<close>, \<open>Next\<close>, \<open>HasNext\<close>, \<open>Len\<close> preserves the invariant
  that the cursor lies in \<open>[0, length]\<close> and never shortens the stored list; with a positive
  \<open>maxval\<close> none of them panics.
\<close>

theorem C7_ops_preserve_cursor:
  assumes "cursor_ok s"
  shows "(\<forall>s1. apply_op x s = Inr s1 \<longrightarrow>
            cursor_ok s1 \<and> length (list_s s) \<le> length (list_s s1)) \<and>
         (0 < maxval s \<longrightarrow> (\<exists>s1. apply_op x s = Inr s1))"
  using assms apply_op_cursor_ok apply_op_length apply_op_total by blast

theorem C7_ops_preserve_cursor_witness:
  "cursor_ok \<lparr>list_s = [2, 0], lindex = 1, maxval = 4\<rparr> \<and>
   apply_op OpNext \<lparr>list_s = [2, 0], lindex = 1, maxval = 4\<rparr> =
     Inr \<lparr>list_s = [2, 0], lindex = 2, maxval = 4\<rparr> \<and>
   cursor_ok \<lparr>list_s = [2, 0], lindex = 2, maxval = 4\<rparr> \<and>
   apply_op (OpReset True 7) \<lparr>list_s = [2, 0], lindex = 1, maxval = 4\<rparr> =
     Inr \<lparr>list_s = [2, 0, 3], lindex = 0, maxval = 4\<rparr> \<and>
   cursor_ok \<lparr>list_s = [2, 0, 3], lindex = 0, maxval = 4\<rparr>"
proof -
  have a: "cursor_ok \<lparr>list_s = [2, 0], lindex = 1, maxval = 4\<rparr>"
    by (simp add: cursor_ok_def)
  have n: "apply_op OpNext \<lparr>list_s = [2, 0], lindex = 1, maxval = 4\<rparr> =
     Inr \<lparr>list_s = [2, 0], lindex = 2, maxval = 4\<rparr>"
    by (simp add: Next_def)
  have r: "apply_op (OpReset True 7) \<lparr>list_s = [2, 0], lindex = 1, maxval = 4\<rparr> =
     Inr \<lparr>list_s = [2, 0, 3], lindex = 0, maxval = 4\<rparr>"
    by (simp add: Reset_def rand_Intn_def)
  show ?thesis
    using a n r C7_ops_preserve_cursor[OF a, of OpNext] C7_ops_preserve_cursor[OF a, of "OpReset True 7"]
    by simp
qed

text \<open>
  C10. When the cursor equals the length, \<open>Next()\<close> returns \<open>-1\<close> and leaves the whole state
  unchanged, however often it is repeated. In every state the program's \<open>sequence\<close> can
  reach through its operations, every stored symbol lies in \<open>[0,4)\<close>, so a value \<open>Next()\<close>
  returns before exhaustion is never the sentinel \<open>-1\<close>.
\<close>

theorem C10_exhausted_Next_noop:
  "(lindex s = Len s \<longrightarrow> Next s = Inr (- 1, s) \<and> Next_times n s = Inr (replicate n (- 1), s)) \<and>
   (run_ops xs sequence_init = Inr s \<longrightarrow>
      list_all (\<lambda>x. 0 \<le> x \<and> x < 4 \<and> x \<noteq> - 1) (list_s s) \<and>
      (\<forall>v s1. Next s = Inr (v, s1) \<and> lindex s \<noteq> Len s \<longrightarrow> 0 \<le> v \<and> v < 4 \<and> v \<noteq> - 1))"
proof (intro conjI impI)
  assume "lindex s = Len s"
  then show "Next s = Inr (- 1, s)" by (rule Next_exhausted)
next
  assume "lindex s = Len s"
  then show "Next_times n s = Inr (replicate n (- 1), s)" by (rule Next_times_exhausted)
next
  assume r: "run_ops xs sequence_init = Inr s"
  have ok: "Sequence_ok s" using run_ops_Sequence_ok[OF sequence_init_ok r] .
  then show "list_all (\<lambda>x. 0 \<le> x \<and> x < 4 \<and> x \<noteq> - 1) (list_s s)"
    by (auto simp: Sequence_ok_def symbols_ok_def list_all_iff)
next
  assume r: "run_ops xs sequence_init = Inr s"
  have ok: "Sequence_ok s" using run_ops_Sequence_ok[OF sequence_init_ok r] .
  then have c: "0 \<le> lindex s" "lindex s \<le> Len s" and sy: "symbols_ok s" and m: "maxval s = 4"
    by (simp_all add: Sequence_ok_def cursor_ok_def Len_def)
  show "\<forall>v s1. Next s = Inr (v, s1) \<and> lindex s \<noteq> Len s \<longrightarrow> 0 \<le> v \<and> v < 4 \<and> v \<noteq> - 1"
  proof (intro allI impI)
    fix v s1 assume h: "Next s = Inr (v, s1) \<and> lindex s \<noteq> Len s"
    then have lt: "lindex s < Len s" using c by simp
    have "Next s = Inr (list_s s ! nat (lindex s), s\<lparr>lindex := lindex s + 1\<rparr>)"
      using c(1) lt by (rule Next_in_range)
    with h have "v = list_s s ! nat (lindex s)" by simp
    then show "0 \<le> v \<and> v < 4 \<and> v \<noteq> - 1"
      using symbols_ok_nth[OF sy c(1) lt] m by simp
  qed
qed


theorem C10_exhausted_Next_noop_witness:
  "lindex \<lparr>list_s = [2, 0], lindex = 2, maxval = 4\<rparr> = Len \<lparr>list_s = [2, 0], lindex = 2, maxval = 4\<rparr> \<and>
   Next_times 3 \<lparr>list_s = [2, 0], lindex = 2, maxval = 4\<rparr> =
     Inr ([- 1, - 1, - 1], \<lparr>list_s = [2, 0], lindex = 2, maxval = 4\<rparr>) \<and>
   run_ops [OpReset True 6, OpReset True 4, OpNext] sequence_init =
     Inr \<lparr>list_s = [2, 0], lindex = 1, maxval = 4\<rparr> \<and>
   Next \<lparr>list_s = [2, 0], lindex = 1, maxval = 4\<rparr> =
     Inr (0, \<lparr>list_s = [2, 0], lindex = 2, maxval = 4\<rparr>) \<and>
   lindex \<lparr>list_s = [2, 0], lindex = 1, maxval = 4\<rparr> \<noteq> Len \<lparr>list_s = [2, 0], lindex = 1, maxval = 4\<rparr> \<and>
   list_all (\<lambda>x. 0 \<le> x \<and> x < 4 \<and> x \<noteq> - 1) (list_s \<lparr>list_s = [2, 0], lindex = 1, maxval = 4\<rparr>)"
proof -
  have e: "lindex \<lparr>list_s = [2, 0], lindex = 2, maxval = 4\<rparr> = Len \<lparr>list_s = [2, 0], lindex = 2, maxval = 4\<rparr>"
    by (simp add: Len_def)
  have r: "run_ops [OpReset True 6, OpReset True 4, OpNext] sequence_init =
     Inr \<lparr>list_s = [2, 0], lindex = 1, maxval = 4\<rparr>"
    by (simp add: sequence_init_def Reset_def rand_Intn_def Next_def)
  have n: "Next \<lparr>list_s = [2, 0], lindex = 1, maxval = 4\<rparr> =
     Inr (0, \<lparr>list_s = [2, 0], lindex = 2, maxval = 4\<rparr>)"
    by (simp add: Next_def)
  have t: "replicate 3 (- 1 :: int) = [- 1, - 1, - 1]" by (simp add: numeral_3_eq_3)
  show ?thesis
    using e r n t
      C10_exhausted_Next_noop[of "\<lparr>list_s = [2, 0], lindex = 2, maxval = 4\<rparr>" 3 "[]"]
      C10_exhausted_Next_noop[of "\<lparr>list_s = [2, 0], lindex = 1, maxval = 4\<rparr>" 0
         "[OpReset True 6, OpReset True 4, OpNext]"]
    by (simp add: Len_def)
qed

section \<open>Properties of the event loop\<close>

lemma pad_indices: "[0..<length pads] = [0, 1, 2, 3]"
  by (simp add: pads_def upt_rec)

lemma scan_events_no_press:
  "\<forall>ev\<in>set evs. pointer_type_of ev \<noteq> pointer_Press \<Longrightarrow> scan_events i evs (- 1) = - 1"
  by (induction evs) simp_all

lemma events_for_subset:
  "ev \<in> set (events_for d q i) \<Longrightarrow> \<exists>evs\<in>set q. ev \<in> set evs"
  by (auto simp: events_for_def split: if_splits)

lemma layout_pad_keyboard:
  "\<not> simonPlay g \<Longrightarrow> 0 \<le> selected g \<Longrightarrow> layout_pad q d i (u, g) = (selected g, g)"
  by (simp add: layout_pad_def)

lemma grid_Layout_keyboard:
  "\<not> simonPlay g \<Longrightarrow> 0 \<le> selected g \<Longrightarrow> grid_Layout q d (u, g) = (selected g, g)"
  by (simp add: grid_Layout_def pad_indices layout_pad_keyboard)

lemma layout_pad_idle:
  assumes "\<not> simonPlay g" and "selected g < 0"
    and "\<forall>evs\<in>set q. \<forall>ev\<in>set evs. pointer_type_of ev \<noteq> pointer_Press"
  shows "layout_pad q d i (- 1, g) = (- 1, g\<lparr>selected := - 1\<rparr>)"
proof -
  have "\<forall>ev\<in>set (events_for d q i). pointer_type_of ev \<noteq> pointer_Press"
    using assms(3) events_for_subset by blast
  then have "scan_events i (events_for d q i) (- 1) = - 1" by (rule scan_events_no_press)
  then show ?thesis using assms(1,2) by (simp add: layout_pad_def Let_def)
qed

lemma grid_Layout_idle:
  assumes "\<not> simonPlay g" and "selected g < 0"
    and "\<forall>evs\<in>set q. \<forall>ev\<in>set evs. pointer_type_of ev \<noteq> pointer_Press"
  shows "grid_Layout q d (- 1, g) = (- 1, g\<lparr>selected := - 1\<rparr>)"
proof -
  let ?g = "g\<lparr>selected := - 1\<rparr>"
  have a: "layout_pad q d i (- 1, g) = (- 1, ?g)" for i
    using assms by (rule layout_pad_idle)
  have b: "layout_pad q d i (- 1, ?g) = (- 1, ?g)" for i
    using layout_pad_idle[of ?g q d i] assms by simp
  show ?thesis by (simp add: grid_Layout_def pad_indices a b)
qed

lemma layout_pad_frame: "layout_pad q d i (u, g) = (u1, g1) \<Longrightarrow> g1 = g\<lparr>selected := selected g1\<rparr>"
  by (auto simp: layout_pad_def Let_def split: if_splits)

lemma fold_layout_pad_frame:
  "fold (layout_pad q d) is (u, g) = (u1, g1) \<Longrightarrow> g1 = g\<lparr>selected := selected g1\<rparr>"
proof (induction "is" arbitrary: u g)
  case Nil
  then show ?case by simp
next
  case (Cons i "is")
  obtain u2 g2 where s: "layout_pad q d i (u, g) = (u2, g2)" by (cases "layout_pad q d i (u, g)")
  from Cons.prems s have "fold (layout_pad q d) is (u2, g2) = (u1, g1)" by simp
  from Cons.IH[OF this] have "g1 = g2\<lparr>selected := selected g1\<rparr>" .
  moreover from layout_pad_frame[OF s] have "g2 = g\<lparr>selected := selected g2\<rparr>" .
  ultimately show ?case by (metis game.update_convs(4) game.surjective game.select_convs)
qed

lemma grid_Layout_frame:
  "grid_Layout q d (u, g) = (u1, g1) \<Longrightarrow> g1 = g\<lparr>selected := selected g1\<rparr>"
  unfolding grid_Layout_def by (rule fold_layout_pad_frame)


lemma judge_no_selection: "user < 0 \<Longrightarrow> judge user g = Inr g"
  by (simp add: judge_def)

lemma play_step_idle: "\<not> simonPlay g \<Longrightarrow> play_step g = Inr g"
  by (simp add: play_step_def)

lemma Reset_False_list: "Reset False raw s = Inr s1 \<Longrightarrow> list_s s1 = list_s s"
  by (simp add: Reset_def Let_def split: if_splits) auto

lemma play_step_list:
  "play_step g = Inr g1 \<Longrightarrow> list_s (sequence g1) = list_s (sequence g)"
  by (auto simp: play_step_def Reset_def Let_def split: if_splits sum.splits prod.splits dest: Next_list)

lemma play_step_game_over: "game_over g \<Longrightarrow> play_step g = Inr g1 \<Longrightarrow> game_over g1"
  by (auto simp: play_step_def game_over_def split: if_splits sum.splits prod.splits)

lemma judge_list: "judge user g = Inr g1 \<Longrightarrow> list_s (sequence g1) = list_s (sequence g)"
  by (auto simp: judge_def Let_def split: if_splits sum.splits prod.splits dest: Next_list)

lemma judge_game_over: "game_over g \<Longrightarrow> judge user g = Inr g1 \<Longrightarrow> game_over g1"
  by (auto simp: judge_def game_over_def Let_def split: if_splits sum.splits prod.splits)

lemma grid_Layout_list:
  "grid_Layout q d (u, g) = (u1, g1) \<Longrightarrow> list_s (sequence g1) = list_s (sequence g)"
  by (drule grid_Layout_frame) (erule ssubst, simp)

lemma grid_Layout_game_over:
  "game_over g \<Longrightarrow> grid_Layout q d (u, g) = (u1, g1) \<Longrightarrow> game_over g1"
  by (drule grid_Layout_frame) (erule ssubst, simp add: game_over_def)

lemma FrameEvent_handler_list:
  assumes "FrameEvent_handler q g = Inr g1"
  shows "list_s (sequence g1) = list_s (sequence g)"
proof -
  from assms obtain ga u gb gc where
    a: "play_step g = Inr ga" and
    b: "grid_Layout q (simonPlay g \<or> terminating g) (- 1, ga) = (u, gb)" and
    c: "judge u gb = Inr gc" and d: "g1 = gc\<lparr>selected := - 1\<rparr>"
    by (auto simp: FrameEvent_handler_def Let_def split: sum.splits prod.splits)
  show ?thesis
    using play_step_list[OF a] grid_Layout_list[OF b] judge_list[OF c] d by simp
qed

lemma FrameEvent_handler_game_over:
  assumes "game_over g" and "FrameEvent_handler q g = Inr g1"
  shows "game_over g1"
proof -
  from assms(2) obtain ga u gb gc where
    a: "play_step g = Inr ga" and
    b: "grid_Layout q (simonPlay g \<or> terminating g) (- 1, ga) = (u, gb)" and
    c: "judge u gb = Inr gc" and d: "g1 = gc\<lparr>selected := - 1\<rparr>"
    by (auto simp: FrameEvent_handler_def Let_def split: sum.splits prod.splits)
  have "game_over gc"
    using judge_game_over[OF grid_Layout_game_over[OF play_step_game_over[OF assms(1) a] b] c] .
  then show ?thesis using d by (simp add: game_over_def)
qed

lemma set_timers_without: "set (timers_without i ts) \<subseteq> set ts"
  unfolding timers_without_def using set_take_subset set_drop_subset
  by (metis Un_least set_append)

lemma run_callback_game_over:
  "terminating g \<Longrightarrow> cb_NextRound \<notin> snd ` set (timers g) \<Longrightarrow> cb \<noteq> cb_NextRound \<Longrightarrow>
   run_callback cb raw g = Inr g1 \<Longrightarrow>
   game_over g1 \<and> list_s (sequence g1) = list_s (sequence g)"
  by (cases cb) (auto simp: game_over_def)

lemma KeyEvent_handler_keeps:
  "sequence (KeyEvent_handler st name g) = sequence g \<and>
   terminating (KeyEvent_handler st name g) = terminating g \<and>
   timers (KeyEvent_handler st name g) = timers g"
  by (simp add: KeyEvent_handler_def)

lemma step_game_over:
  assumes "game_over g" and "step a g = Inr g1"
  shows "game_over g1 \<and> list_s (sequence g1) = list_s (sequence g)"
proof (cases a)
  case (Deliver e)
  show ?thesis
  proof (cases e)
    case DestroyEvent
    with Deliver assms show ?thesis by (auto simp: game_over_def)
  next
    case (FrameEvent q)
    with Deliver assms show ?thesis
      using FrameEvent_handler_game_over FrameEvent_handler_list by auto
  next
    case (KeyEvent st name)
    with Deliver assms show ?thesis by (auto simp: game_over_def KeyEvent_handler_keeps)
  next
    case OtherEvent
    with Deliver assms show ?thesis by auto
  qed
next
  case (Fire i raw)
  show ?thesis
  proof (cases "i < length (timers g)")
    case True
    let ?g = "g\<lparr>timers := timers_without i (timers g)\<rparr>"
    have nin: "cb_NextRound \<notin> snd ` set (timers ?g)"
      using assms(1) set_timers_without[of i "timers g"] by (auto simp: game_over_def)
    have "timers g ! i \<in> set (timers g)" using True by simp
    then have "snd (timers g ! i) \<in> snd ` set (timers g)" by (rule imageI)
    moreover have "cb_NextRound \<notin> snd ` set (timers g)"
      using assms(1) by (simp add: game_over_def)
    ultimately have ne: "snd (timers g ! i) \<noteq> cb_NextRound" by metis
    have t: "terminating ?g" using assms(1) by (simp add: game_over_def)
    have r: "run_callback (snd (timers g ! i)) raw ?g = Inr g1"
      using assms(2) Fire True by simp
    from run_callback_game_over[OF t nin ne r] show ?thesis by simp
  next
    case False
    with Fire assms show ?thesis by simp
  qed
qed

lemma run_game_over:
  "game_over g \<Longrightarrow> run as g = Inr g1 \<Longrightarrow>
   game_over g1 \<and> list_s (sequence g1) = list_s (sequence g)"
proof (induction as arbitrary: g)
  case Nil
  then show ?case by simp
next
  case (Cons a as)
  show ?case
  proof (cases "exited g")
    case True
    with Cons.prems show ?thesis by simp
  next
    case False
    with Cons.prems obtain g2 where s: "step a g = Inr g2" and r: "run as g2 = Inr g1"
      by (auto split: sum.splits)
    from step_game_over[OF Cons.prems(1) s] have "game_over g2" "list_s (sequence g2) = list_s (sequence g)"
      by simp_all
    with Cons.IH[OF this(1) r] show ?thesis by simp
  qed
qed

lemma step_appends_at_most_one:
  assumes "step a g = Inr g1"
  shows "list_s (sequence g1) = list_s (sequence g) \<or>
         (\<exists>i raw v. a = Fire i raw \<and> i < length (timers g) \<and>
            snd (timers g ! i) = cb_NextRound \<and> list_s (sequence g1) = list_s (sequence g) @ [v])"
proof (cases a)
  case (Deliver e)
  with assms show ?thesis
    by (cases e) (auto simp: KeyEvent_handler_keeps dest: FrameEvent_handler_list)
next
  case (Fire i raw)
  show ?thesis
  proof (cases "i < length (timers g)")
    case True
    with Fire assms show ?thesis
      by (cases "snd (timers g ! i)")
         (auto simp: Reset_def rand_Intn_def Let_def split: if_splits sum.splits)
  next
    case False
    with Fire assms show ?thesis by simp
  qed
qed

lemma Fire_Failure_reports:
  assumes "i < length (timers g)" and "snd (timers g ! i) = cb_Failure"
    and "step (Fire i raw) g = Inr g1"
  shows "reported g1 = reported g @ [Len (sequence g) - 1]"
  using assms by auto

lemmas frame_defs = FrameEvent_handler_def play_step_def grid_Layout_def pad_indices
  layout_pad_def events_for_def judge_def Next_def HasNext_def Reset_def Len_def
  playInterval_def resetTime_def Let_def

lemmas loop_defs = frame_defs KeyEvent_handler_def timers_without_def rand_Intn_def
  loop_start_def sequence_init_def awaiting_def

text \<open>
  Awaiting the player, a selection that differs from the symbol \<open>Next()\<close> returns sets
  \<open>terminating\<close> and schedules the failure function. If no next-round timer is pending at
  that moment, the list can no longer change, and the failure function reports the length
  at the failure minus one whenever it runs.
\<close>

lemma mismatch_sets_terminating:
  assumes "\<not> simonPlay g" and "\<not> terminating g"
    and "grid_Layout q False (- 1, g) = (user, g1)" and "0 \<le> user"
    and "Next (sequence g) = Inr (simon, s1)" and "0 \<le> simon" and "simon \<noteq> user"
  shows "\<exists>g2. FrameEvent_handler q g = Inr g2 \<and> terminating g2 \<and> \<not> simonPlay g2 \<and>
           timers g2 = timers g @ [(playInterval, cb_Failure)] \<and>
           Len (sequence g2) = Len (sequence g) \<and> reported g2 = reported g \<and>
           (cb_NextRound \<notin> snd ` set (timers g) \<longrightarrow>
              (\<forall>as g3 i g4. run as g2 = Inr g3 \<and> i < length (timers g3) \<and>
                   snd (timers g3 ! i) = cb_Failure \<and> step (Fire i raw) g3 = Inr g4
                 \<longrightarrow> reported g4 = reported g3 @ [Len (sequence g) - 1]))"
proof -
  have ps: "play_step g = Inr g" using assms(1) by (rule play_step_idle)
  have g1: "g1 = g\<lparr>selected := selected g1\<rparr>" using assms(3) by (rule grid_Layout_frame)
  have sq: "sequence g1 = sequence g" "simonPlay g1 = simonPlay g" "terminating g1 = terminating g"
    "timers g1 = timers g" "reported g1 = reported g"
    by (subst g1, simp)+
  have l: "list_s s1 = list_s (sequence g)" using assms(5) by (simp add: Next_list)
  let ?g2 = "g1\<lparr>sequence := s1, terminating := True,
                  timers := timers g @ [(playInterval, cb_Failure)], selected := - 1\<rparr>"
  have j: "judge user g1 =
      Inr (g1\<lparr>sequence := s1, terminating := True, timers := timers g @ [(playInterval, cb_Failure)]\<rparr>)"
    using assms(1,4,5,6,7) sq by (simp add: judge_def Let_def)
  have fe: "FrameEvent_handler q g = Inr ?g2"
    unfolding FrameEvent_handler_def Let_def ps using assms(1,2,3) j by simp
  have basic: "terminating ?g2 \<and> \<not> simonPlay ?g2 \<and>
           timers ?g2 = timers g @ [(playInterval, cb_Failure)] \<and>
           Len (sequence ?g2) = Len (sequence g) \<and> reported ?g2 = reported g"
    using sq l assms(1) by (simp add: Len_def)
  have later: "reported g4 = reported g3 @ [Len (sequence g) - 1]"
    if n: "cb_NextRound \<notin> snd ` set (timers g)"
      and r: "run as ?g2 = Inr g3" and i: "i < length (timers g3)"
      and f: "snd (timers g3 ! i) = cb_Failure" and s: "step (Fire i raw) g3 = Inr g4"
    for as g3 i g4
  proof -
    have "game_over ?g2" using n by (simp add: game_over_def)
    from run_game_over[OF this r] have "list_s (sequence g3) = list_s (sequence ?g2)" by simp
    then have "Len (sequence g3) = Len (sequence g)" using l by (simp add: Len_def)
    with Fire_Failure_reports[OF i f s] show ?thesis by simp
  qed
  show ?thesis
    apply (rule exI[of _ ?g2])
    using fe basic later by blast
qed

text \<open>
  C5, evaluated on a game. Round 1 on \<open>[2]\<close> is completed and a further key press leaves two
  next-round timers pending. The first runs, the sequence is \<open>[2, 1]\<close>, and the machine's
  playback is over after three frames while the second timer is still pending. The
  player presses key 1 where symbol 2 is expected: the frame sets \<open>terminating\<close> and
  schedules the failure function; at this failure \<open>Len() - 1\<close> is 1. The pending next-round
  timer runs before the failure function does and appends a symbol, so the number the
  failure function reports is 2.
\<close>

theorem C5_report_after_pending_reset:
  "loop_start 2 = Inr ((awaiting [2] 0 (- 1))\<lparr>simonPlay := True\<rparr>) \<and>
   run [Deliver (FrameEvent []), Fire 0 0, Deliver (FrameEvent []),
        Deliver (KeyEvent key_Press ''3''), Deliver (FrameEvent []),
        Deliver (KeyEvent key_Release ''3''), Deliver (FrameEvent []),
        Deliver (KeyEvent key_Press ''3''), Deliver (FrameEvent []),
        Fire 0 1, Deliver (FrameEvent []), Deliver (FrameEvent []), Deliver (FrameEvent [])]
       ((awaiting [2] 0 (- 1))\<lparr>simonPlay := True\<rparr>) =
     Inr ((awaiting [2, 1] 0 (- 1))\<lparr>
            timers := [(resetTime, cb_NextRound), (playInterval, cb_Invalidate),
                       (playInterval, cb_Invalidate)],
            invalidations := 5\<rparr>) \<and>
   run [Deliver (KeyEvent key_Press ''1''), Deliver (FrameEvent [])]
       ((awaiting [2, 1] 0 (- 1))\<lparr>
            timers := [(resetTime, cb_NextRound), (playInterval, cb_Invalidate),
                       (playInterval, cb_Invalidate)],
            invalidations := 5\<rparr>) =
     Inr ((awaiting [2, 1] 1 (- 1))\<lparr>terminating := True,
            timers := [(resetTime, cb_NextRound), (playInterval, cb_Invalidate),
                       (playInterval, cb_Invalidate), (playInterval, cb_Failure)],
            invalidations := 6\<rparr>) \<and>
   Len (sequence ((awaiting [2, 1] 1 (- 1))\<lparr>terminating := True,
            timers := [(resetTime, cb_NextRound), (playInterval, cb_Invalidate),
                       (playInterval, cb_Invalidate), (playInterval, cb_Failure)],
            invalidations := 6\<rparr>)) - 1 = 1 \<and>
   run [Fire 0 7, Fire 2 0]
       ((awaiting [2, 1] 1 (- 1))\<lparr>terminating := True,
            timers := [(resetTime, cb_NextRound), (playInterval, cb_Invalidate),
                       (playInterval, cb_Invalidate), (playInterval, cb_Failure)],
            invalidations := 6\<rparr>) =
     Inr ((awaiting [2, 1, 3] 0 (- 1))\<lparr>simonPlay := True, terminating := True,
            timers := [(playInterval, cb_Invalidate), (playInterval, cb_Invalidate),
                       (resetTime, cb_Close)],
            invalidations := 7, reported := [2]\<rparr>) \<and>
   reported ((awaiting [2, 1, 3] 0 (- 1))\<lparr>simonPlay := True, terminating := True,
            timers := [(playInterval, cb_Invalidate), (playInterval, cb_Invalidate),
                       (resetTime, cb_Close)],
            invalidations := 7, reported := [2]\<rparr>) = [2]"
  by (simp add: loop_defs)

text \<open>
  C6. Awaiting the player, a frame with no live selection (\<open>selected < 0\<close>) and no pointer
  press among its events changes nothing of the game: \<open>Next()\<close> is not called, the cursor
  stays, nothing is scheduled. Every frame ends with \<open>selected = -1\<close>, so a selection that
  was judged is not judged again by a following frame without a new press; and judging
  with no selection (\<open>user < 0\<close>) is the identity.
\<close>

theorem C6_no_selection_no_judging:
  "(\<not> simonPlay g \<and> selected g < 0 \<and>
      (\<forall>evs\<in>set q. \<forall>ev\<in>set evs. pointer_type_of ev \<noteq> pointer_Press)
    \<longrightarrow> FrameEvent_handler q g = Inr (g\<lparr>selected := - 1\<rparr>)) \<and>
   (\<forall>g1. FrameEvent_handler q g = Inr g1 \<longrightarrow>
      selected g1 = - 1 \<and>
      (\<not> simonPlay g1 \<and>
         (\<forall>evs\<in>set q2. \<forall>ev\<in>set evs. pointer_type_of ev \<noteq> pointer_Press)
       \<longrightarrow> FrameEvent_handler q2 g1 = Inr g1)) \<and>
   (user < 0 \<longrightarrow> judge user g = Inr g)"
proof -
  have idle: "FrameEvent_handler q' g' = Inr (g'\<lparr>selected := - 1\<rparr>)"
    if h: "\<not> simonPlay g'" "selected g' < 0"
      "\<forall>evs\<in>set q'. \<forall>ev\<in>set evs. pointer_type_of ev \<noteq> pointer_Press"
    for q' g'
  proof -
    have gl: "grid_Layout q' (simonPlay g' \<or> terminating g') (- 1, g') =
        (- 1, g'\<lparr>selected := - 1\<rparr>)"
      using h by (rule grid_Layout_idle)
    have ps: "play_step g' = Inr g'" using h(1) by (rule play_step_idle)
    show ?thesis
      unfolding FrameEvent_handler_def Let_def ps using gl by (simp add: judge_no_selection)
  qed
  have cleared: "selected g1 = - 1" if "FrameEvent_handler q g = Inr g1" for g1
    using that by (auto simp: FrameEvent_handler_def Let_def split: sum.splits prod.splits)
  have once: "FrameEvent_handler q2 g1 = Inr g1"
    if f: "FrameEvent_handler q g = Inr g1" and s: "\<not> simonPlay g1"
      and n: "\<forall>evs\<in>set q2. \<forall>ev\<in>set evs. pointer_type_of ev \<noteq> pointer_Press"
    for g1
  proof -
    have c: "selected g1 = - 1" using f by (rule cleared)
    then have "selected g1 < 0" by simp
    from idle[OF s this n] have "FrameEvent_handler q2 g1 = Inr (g1\<lparr>selected := - 1\<rparr>)" .
    moreover have "g1\<lparr>selected := - 1\<rparr> = g1" using c by simp
    ultimately show ?thesis by simp
  qed
  show ?thesis using idle[of g q] cleared once judge_no_selection[of user g] by blast
qed

theorem C6_no_selection_no_judging_witness:
  "\<not> simonPlay (awaiting [2, 0] 1 (- 1)) \<and> selected (awaiting [2, 0] 1 (- 1)) < 0 \<and>
   FrameEvent_handler [[PointerEvent pointer_Release], [NonPointerEvent]] (awaiting [2, 0] 1 (- 1)) =
     Inr (awaiting [2, 0] 1 (- 1)) \<and>
   FrameEvent_handler [[PointerEvent pointer_Press]] (awaiting [2, 0] 0 (- 1)) =
     Inr ((awaiting [2, 0] 1 (- 1))\<lparr>terminating := True, timers := [(500, cb_Failure)]\<rparr>) \<and>
   selected ((awaiting [2, 0] 1 (- 1))\<lparr>terminating := True, timers := [(500, cb_Failure)]\<rparr>) = - 1 \<and>
   FrameEvent_handler [[PointerEvent pointer_Release]]
       ((awaiting [2, 0] 1 (- 1))\<lparr>terminating := True, timers := [(500, cb_Failure)]\<rparr>) =
     Inr ((awaiting [2, 0] 1 (- 1))\<lparr>terminating := True, timers := [(500, cb_Failure)]\<rparr>) \<and>
   judge (- 1) (awaiting [2, 0] 1 (- 1)) = Inr (awaiting [2, 0] 1 (- 1))"
proof -
  let ?g = "awaiting [2, 0] 1 (- 1)"
  let ?q = "[[PointerEvent pointer_Release], [NonPointerEvent]]"
  let ?g1 = "?g\<lparr>terminating := True, timers := [(500, cb_Failure)]\<rparr>"
  have a: "\<not> simonPlay ?g \<and> selected ?g < 0 \<and>
      (\<forall>evs\<in>set ?q. \<forall>ev\<in>set evs. pointer_type_of ev \<noteq> pointer_Press)"
    by (simp add: awaiting_def)
  have b: "?g\<lparr>selected := - 1\<rparr> = ?g" by (simp add: awaiting_def)
  have c: "FrameEvent_handler [[PointerEvent pointer_Press]] (awaiting [2, 0] 0 (- 1)) = Inr ?g1"
    by (simp add: awaiting_def frame_defs)
  have d: "(- 1 :: int) < 0" by simp
  have e: "\<not> simonPlay ?g1 \<and>
      (\<forall>evs\<in>set [[PointerEvent pointer_Release]]. \<forall>ev\<in>set evs. pointer_type_of ev \<noteq> pointer_Press)"
    by (simp add: awaiting_def)
  have n1: "\<not> simonPlay ?g \<and> selected ?g < 0" using a by simp
  from C6_no_selection_no_judging[of ?g ?q "[]" "- 1"] a d
  have r1: "FrameEvent_handler ?q ?g = Inr (?g\<lparr>selected := - 1\<rparr>)"
    and r3: "judge (- 1) ?g = Inr ?g"
    by blast+
  from C6_no_selection_no_judging[of "awaiting [2, 0] 0 (- 1)" "[[PointerEvent pointer_Press]]"
      "[[PointerEvent pointer_Release]]" "- 1"] c e
  have r2: "selected ?g1 = - 1"
    and r4: "FrameEvent_handler [[PointerEvent pointer_Release]] ?g1 = Inr ?g1"
    by blast+
  show ?thesis
    using n1 r1[unfolded b] c r2 r4 r3 by blast
qed

text \<open>
  C8. Awaiting the player, when a keyboard selection is live at a frame (\<open>0 \<le> selected\<close>),
  the selection judged is that one whatever pointer events the frame carries: the pads'
  pointer events are not scanned, and the frame does what it does with no pointer events.
\<close>

theorem C8_keyboard_precedence:
  assumes "\<not> simonPlay g" and "0 \<le> selected g"
  shows "grid_Layout q d (- 1, g) = (selected g, g) \<and>
         FrameEvent_handler q g =
           (case judge (selected g) g of Inl e \<Rightarrow> Inl e | Inr g3 \<Rightarrow> Inr (g3\<lparr>selected := - 1\<rparr>)) \<and>
         FrameEvent_handler q g = FrameEvent_handler [] g"
proof -
  have gl: "grid_Layout q' d' (- 1, g) = (selected g, g)" for q' d'
    using assms by (rule grid_Layout_keyboard)
  have ps: "play_step g = Inr g" using assms(1) by (rule play_step_idle)
  have fe: "FrameEvent_handler q' g =
           (case judge (selected g) g of Inl e \<Rightarrow> Inl e | Inr g3 \<Rightarrow> Inr (g3\<lparr>selected := - 1\<rparr>))" for q'
    unfolding FrameEvent_handler_def Let_def ps by (simp add: gl)
  show ?thesis using gl fe by simp
qed

theorem C8_keyboard_precedence_witness:
  "\<not> simonPlay (awaiting [2, 0] 0 2) \<and> 0 \<le> selected (awaiting [2, 0] 0 2) \<and>
   grid_Layout [[PointerEvent pointer_Press]] False (- 1, awaiting [2, 0] 0 2) = (2, awaiting [2, 0] 0 2) \<and>
   FrameEvent_handler [[PointerEvent pointer_Press]] (awaiting [2, 0] 0 2) = Inr (awaiting [2, 0] 1 (- 1)) \<and>
   FrameEvent_handler [[PointerEvent pointer_Press]] (awaiting [2, 0] 0 (- 1)) =
     Inr ((awaiting [2, 0] 1 (- 1))\<lparr>terminating := True, timers := [(500, cb_Failure)]\<rparr>)"
proof -
  let ?g = "awaiting [2, 0] 0 2"
  have a: "\<not> simonPlay ?g" and b: "0 \<le> selected ?g" by (simp_all add: awaiting_def)
  have j: "judge 2 ?g = Inr (awaiting [2, 0] 1 2)"
    by (simp add: awaiting_def judge_def Next_def HasNext_def)
  have k: "(awaiting [2, 0] 1 2)\<lparr>selected := - 1\<rparr> = awaiting [2, 0] 1 (- 1)"
    by (simp add: awaiting_def)
  have s: "selected ?g = 2" by (simp add: awaiting_def)
  have c: "FrameEvent_handler [[PointerEvent pointer_Press]] (awaiting [2, 0] 0 (- 1)) =
     Inr ((awaiting [2, 0] 1 (- 1))\<lparr>terminating := True, timers := [(500, cb_Failure)]\<rparr>)"
    by (simp add: awaiting_def frame_defs)
  show ?thesis
    using a b c C8_keyboard_precedence[OF a b, of "[[PointerEvent pointer_Press]]" False]
    by (simp add: j k s)
qed

text \<open>
  C1, evaluated on a game: the first symbol is 2; the machine plays it; the player presses
  key 3 and completes round 1, which schedules one next-round timer; the player presses a
  key once more before that timer runs, \<open>Next()\<close> returns \<open>-1\<close>, and a second next-round
  timer is scheduled. Both run: the sequence has three symbols after one successful
  round.
\<close>

theorem C1_extra_selection_grows_twice:
  "loop_start 2 = Inr ((awaiting [2] 0 (- 1))\<lparr>simonPlay := True\<rparr>) \<and>
   run [Deliver (FrameEvent []), Fire 0 0, Deliver (FrameEvent []),
        Deliver (KeyEvent key_Press ''3''), Deliver (FrameEvent [])]
       ((awaiting [2] 0 (- 1))\<lparr>simonPlay := True\<rparr>) =
     Inr ((awaiting [2] 1 (- 1))\<lparr>timers := [(resetTime, cb_NextRound)], invalidations := 2\<rparr>) \<and>
   run [Deliver (KeyEvent key_Release ''3''), Deliver (FrameEvent []),
        Deliver (KeyEvent key_Press ''3''), Deliver (FrameEvent []),
        Fire 0 1, Deliver (FrameEvent []), Fire 0 7]
       ((awaiting [2] 1 (- 1))\<lparr>timers := [(resetTime, cb_NextRound)], invalidations := 2\<rparr>) =
     Inr ((awaiting [2, 1, 3] 0 (- 1))\<lparr>simonPlay := True,
            timers := [(playInterval, cb_Invalidate)], invalidations := 6\<rparr>) \<and>
   Len (sequence ((awaiting [2, 1, 3] 0 (- 1))\<lparr>simonPlay := True,
            timers := [(playInterval, cb_Invalidate)], invalidations := 6\<rparr>)) = 3"
  by (simp add: loop_defs)

text \<open>
  C9, evaluated on a game: when the next-round timer pending after round 1 runs its
  function, that function itself sets \<open>simonPlay\<close> and appends to the sequence; no event
  has been delivered to the loop in between.
\<close>

theorem C9_timer_function_mutates_state:
  "step (Fire 0 1) ((awaiting [2] 1 (- 1))\<lparr>timers := [(resetTime, cb_NextRound)]\<rparr>) =
     Inr ((awaiting [2, 1] 0 (- 1))\<lparr>simonPlay := True, invalidations := 1\<rparr>) \<and>
   simonPlay ((awaiting [2] 1 (- 1))\<lparr>timers := [(resetTime, cb_NextRound)]\<rparr>) = False \<and>
   simonPlay ((awaiting [2, 1] 0 (- 1))\<lparr>simonPlay := True, invalidations := 1\<rparr>) = True \<and>
   sequence ((awaiting [2, 1] 0 (- 1))\<lparr>simonPlay := True, invalidations := 1\<rparr>) \<noteq>
   sequence ((awaiting [2] 1 (- 1))\<lparr>timers := [(resetTime, cb_NextRound)]\<rparr>)"
  by (simp add: loop_defs)

end
